theory Spec2Isabelle
  imports Main "HOL-Library.Word"
begin

unbundle bit_operations_syntax

section \<open>Data model\<close>

text \<open>
  Go strings are byte sequences; \<open>string\<close> (a list of 8-bit \<open>char\<close>) is the model, and
  indexing a string yields a \<open>byte\<close>. A run-time panic is kept apart from an \<open>error\<close>
  value: functions that can panic return \<open>panic + 'a\<close>, functions with Go's
  \<open>(value, error)\<close> result return a pair whose second component is \<open>None\<close> for \<open>nil\<close>.
\<close>

type_synonym byte = "8 word"

datatype panic = IndexOutOfRange | MakesliceCapOutOfRange

datatype go_error = InvalidByteError char | ErrLength | PathError | ScannerError

section \<open>Codec\<close>

subsection \<open>Library functions used by the codec\<close>

text \<open>\<open>encoding/hex\<close>: the table \<open>"0123456789abcdef"\<close> and \<open>EncodeToString\<close>, two digits
  per byte, high nibble first.\<close>

definition hextable :: string where
  "hextable = ''0123456789abcdef''"

definition EncodeToString :: "byte list \<Rightarrow> string" where
  "EncodeToString src =
     concat (map (\<lambda>v. [hextable ! unat (drop_bit 4 v), hextable ! unat (v AND 0x0f)]) src)"

text \<open>\<open>strings.ToUpper\<close> on ASCII bytes (the only input it gets here is the output of
  \<open>EncodeToString\<close>): the letters a to z move down by 32, every other byte stays.\<close>

definition upper_char :: "char \<Rightarrow> char" where
  "upper_char c =
     (if (97::nat) \<le> of_char c \<and> of_char c \<le> (122::nat) then char_of (of_char c - (32::nat)) else c)"

definition ToUpper :: "string \<Rightarrow> string" where
  "ToUpper s = map upper_char s"

text \<open>\<open>encoding/hex\<close>: the reverse table (\<open>None\<close> where the table holds 0xff) and
  \<open>DecodeString\<close>. Pairs are decoded from the left; the first invalid byte stops the
  decoding with \<open>InvalidByteError\<close>, an odd length with a valid last byte is \<open>ErrLength\<close>.
  The bytes decoded so far are returned with the error.\<close>

definition fromHexChar :: "char \<Rightarrow> byte option" where
  "fromHexChar c =
     (let n = (of_char c :: nat) in
      if 48 \<le> n \<and> n \<le> 57 then Some (of_nat (n - 48))
      else if 97 \<le> n \<and> n \<le> 102 then Some (of_nat (n - 97 + 10))
      else if 65 \<le> n \<and> n \<le> 70 then Some (of_nat (n - 65 + 10))
      else None)"

fun Decode :: "string \<Rightarrow> byte list \<Rightarrow> byte list \<times> go_error option" where
  "Decode [] dst = (dst, None)"
| "Decode [p] dst =
     (case fromHexChar p of
        None \<Rightarrow> (dst, Some (InvalidByteError p))
      | Some a \<Rightarrow> (dst, Some ErrLength))"
| "Decode (p # q # src) dst =
     (case fromHexChar p of
        None \<Rightarrow> (dst, Some (InvalidByteError p))
      | Some a \<Rightarrow>
          (case fromHexChar q of
             None \<Rightarrow> (dst, Some (InvalidByteError q))
           | Some b \<Rightarrow> Decode src (dst @ [push_bit 4 a OR b])))"

definition DecodeString :: "string \<Rightarrow> byte list \<times> go_error option" where
  "DecodeString s = Decode s []"

text \<open>\<open>fmt.Sprintf("%08b", b)\<close> for a byte: its eight bits, most significant first.\<close>

definition Sprintf_08b :: "byte \<Rightarrow> string" where
  "Sprintf_08b b = map (\<lambda>i. if bit b i then CHR ''1'' else CHR ''0'') [7, 6, 5, 4, 3, 2, 1, 0]"

subsection \<open>binToHex and hexToBin\<close>

text \<open>The inner loop of \<open>binToHex\<close>: \<open>for j := 0; j < 8 && i+j < len(binStr); j++\<close>, with
  byte arithmetic (subtraction of \<open>'0'\<close> wraps, the shift drops the top bit).\<close>

function binToHex_inner :: "string \<Rightarrow> nat \<Rightarrow> nat \<Rightarrow> byte \<Rightarrow> byte" where
  "binToHex_inner binStr i j binByte =
     (if j < 8 \<and> i + j < length binStr
      then binToHex_inner binStr i (j + 1)
             (push_bit 1 binByte OR (of_char (binStr ! (i + j)) - of_char CHR ''0''))
      else binByte)"
  by pat_completeness auto
termination
  by (relation "measure (\<lambda>(binStr, i, j, binByte). 8 - j)") auto

text \<open>The outer loop: \<open>for i := 0; i < len(binStr); i += 8\<close>, storing at \<open>binBytes[i/8]\<close>.
  The index is in range whenever the loop body runs (lemma \<open>binToHex_index_in_range\<close>),
  and so is \<open>binStr[i+j]\<close> in the inner loop, by its guard. Lengths and indices are
  \<open>nat\<close>: a string is far shorter than the largest \<open>int\<close>, so \<open>len(binStr)+7\<close> and
  \<open>i += 8\<close> do not wrap.\<close>

function binToHex_outer :: "string \<Rightarrow> nat \<Rightarrow> byte list \<Rightarrow> byte list" where
  "binToHex_outer binStr i binBytes =
     (if i < length binStr
      then binToHex_outer binStr (i + 8) (binBytes[i div 8 := binToHex_inner binStr i 0 0])
      else binBytes)"
  by pat_completeness auto
termination
  by (relation "measure (\<lambda>(binStr, i, binBytes). length binStr - i)") auto

declare binToHex_inner.simps [simp del] binToHex_outer.simps [simp del]

definition binToHex :: "string \<Rightarrow> string \<times> go_error option" where
  "binToHex binStr =
     (let binBytes = replicate ((length binStr + 7) div 8) (0::byte)
      in (ToUpper (EncodeToString (binToHex_outer binStr 0 binBytes)), None))"

definition hexToBin :: "string \<Rightarrow> string \<times> go_error option" where
  "hexToBin hexStr =
     (case DecodeString hexStr of
        (bytes, Some err) \<Rightarrow> ('''', Some err)
      | (bytes, None) \<Rightarrow> (foldl (\<lambda>binStr b. binStr @ Sprintf_08b b) '''' bytes, None))"


section \<open>Bounded FIFO cache\<close>

text \<open>The struct \<open>Cache\<close>. \<open>maxEntries\<close> is a Go \<open>int\<close>; \<open>entries\<close> is a Go map, modelled as a
  partial function whose \<open>len\<close> is the number of keys; \<open>keys\<close> is the slice of keys.\<close>

record cache =
  maxEntries :: int
  entries :: "string \<rightharpoonup> string"
  keys :: "string list"

text \<open>The Go runtime's allocation limit \<open>maxAlloc\<close> on 64-bit Linux (48 address bits). A
  string header takes 16 bytes there.\<close>

definition maxAlloc :: int where
  "maxAlloc = 2 ^ 48"

text \<open>\<open>NewCache\<close>: \<open>make([]string, 0, maxEntries)\<close> panics with \<open>makeslice: cap out of range\<close>
  when the capacity is negative or when its 16 bytes per element exceed \<open>maxAlloc\<close>
  (which covers the overflow of the product). An allocation within the limit is taken
  to succeed: running out of memory is a fatal error of the process, not modelled. The
  capacity of the slice is a hint for allocation and is not kept in the model.\<close>

definition NewCache :: "int \<Rightarrow> panic + cache" where
  "NewCache n =
     (if n < 0 \<or> maxAlloc < 16 * n then Inl MakesliceCapOutOfRange
      else Inr \<lparr>maxEntries = n, entries = Map.empty, keys = []\<rparr>)"

text \<open>\<open>Get\<close> returns the value and whether the key exists; a missing key yields the zero
  value of \<open>string\<close>.\<close>

definition Get :: "cache \<Rightarrow> string \<Rightarrow> string \<times> bool" where
  "Get c key = (case entries c key of None \<Rightarrow> ('''', False) | Some val \<Rightarrow> (val, True))"

text \<open>\<open>Set\<close>: when the key is absent and \<open>len(c.entries) >= c.maxEntries\<close>, the code reads
  \<open>c.keys[0]\<close>, which panics on an empty slice, drops it from the slice and deletes it from
  the map; then it appends the key and stores the value.\<close>

definition Set :: "cache \<Rightarrow> string \<Rightarrow> string \<Rightarrow> panic + cache" where
  "Set c key val =
     (case entries c key of
        Some old \<Rightarrow> Inr c
      | None \<Rightarrow>
          (if maxEntries c \<le> int (card (dom (entries c)))
           then (case keys c of
                   [] \<Rightarrow> Inl IndexOutOfRange
                 | oldestKey # rest \<Rightarrow>
                     Inr (c\<lparr>keys := rest @ [key],
                            entries := ((entries c)(oldestKey := None))(key \<mapsto> val)\<rparr>))
           else Inr (c\<lparr>keys := keys c @ [key], entries := (entries c)(key \<mapsto> val)\<rparr>)))"

section \<open>Line pipeline\<close>

text \<open>\<open>strings.Split(line, ":")\<close> for a one-byte separator: the substrings between
  the separators, all of them; a string without the separator is returned alone.\<close>

function Split :: "string \<Rightarrow> char \<Rightarrow> string list" where
  "Split s sep =
     (if sep \<in> set s
      then takeWhile (\<lambda>c. c \<noteq> sep) s # Split (tl (dropWhile (\<lambda>c. c \<noteq> sep) s)) sep
      else [s])"
  by pat_completeness auto
termination
proof (relation "measure (\<lambda>(s, sep). length s)")
  show "wf (measure (\<lambda>(s, sep). length s))" by simp
next
  fix s :: string and sep :: char
  assume "sep \<in> set s"
  then have "dropWhile (\<lambda>c. c \<noteq> sep) s \<noteq> []" by simp
  then have "length (tl (dropWhile (\<lambda>c. c \<noteq> sep) s)) < length (dropWhile (\<lambda>c. c \<noteq> sep) s)"
    by (cases "dropWhile (\<lambda>c. c \<noteq> sep) s") simp_all
  also have "\<dots> \<le> length s" by (rule length_dropWhile_le)
  finally show "((tl (dropWhile (\<lambda>c. c \<noteq> sep) s), sep), (s, sep)) \<in> measure (\<lambda>(s, sep). length s)"
    by simp
qed

declare Split.simps [simp del]

text \<open>Indexing a slice: out of range is a run-time panic.\<close>

definition index :: "'a list \<Rightarrow> nat \<Rightarrow> panic + 'a" where
  "index xs i = (if i < length xs then Inr (xs ! i) else Inl IndexOutOfRange)"

text \<open>What \<open>os.Open\<close> and the \<open>bufio.Scanner\<close> give the loop: the lines \<open>scanner.Scan\<close>
  yields, in order, and the value of \<open>scanner.Err()\<close> once \<open>Scan\<close> has returned false.\<close>

record scanned =
  scan_lines :: "string list"
  scan_err :: "go_error option"

definition newline :: string where
  "newline = [CHR 0x0A]"

text \<open>The loop of \<open>convertWithoutCache\<close> over the remaining lines, with the bytes handed to
  the writer so far. \<open>Inr (Inl err)\<close> is the early \<open>return err\<close>, \<open>Inr (Inr w)\<close> the end of
  the loop, \<open>Inl\<close> a panic.\<close>

fun convertWithoutCache_loop :: "string list \<Rightarrow> string \<Rightarrow> panic + (go_error + string)" where
  "convertWithoutCache_loop [] writer = Inr (Inr writer)"
| "convertWithoutCache_loop (line # rest) writer =
     (let parts = Split line CHR '':'' in
      case index parts 0 of
        Inl p \<Rightarrow> Inl p
      | Inr matrixSize \<Rightarrow>
          (case index parts 1 of
             Inl p \<Rightarrow> Inl p
           | Inr binaryStr \<Rightarrow>
               (case binToHex binaryStr of
                  (hexStr, Some err) \<Rightarrow> Inr (Inl err)
                | (hexStr, None) \<Rightarrow>
                    (let newLine = matrixSize @ '':'' @ hexStr
                     in convertWithoutCache_loop rest (writer @ newLine @ newline)))))"

text \<open>\<open>convertWithoutCache\<close>: the results of \<open>os.Open\<close> and \<open>os.Create\<close> are parameters. The
  value is the returned error and the bytes flushed to the output file; on the early
  return the writer is not flushed. Write errors are not modelled.\<close>

definition convertWithoutCache ::
  "go_error + scanned \<Rightarrow> go_error option \<Rightarrow> panic + (go_error option \<times> string)" where
  "convertWithoutCache input created =
     (case input of
        Inl err \<Rightarrow> Inr (Some err, '''')
      | Inr scanner \<Rightarrow>
          (case created of
             Some err \<Rightarrow> Inr (Some err, '''')
           | None \<Rightarrow>
               (case convertWithoutCache_loop (scan_lines scanner) '''' of
                  Inl p \<Rightarrow> Inl p
                | Inr (Inl err) \<Rightarrow> Inr (Some err, '''')
                | Inr (Inr writer) \<Rightarrow> Inr (scan_err scanner, writer))))"

text \<open>The loop of \<open>convertWithCache\<close>: the cache is looked up with the whole line; on a miss
  the line is converted, stored with \<open>Set\<close> and written.\<close>

fun convertWithCache_loop ::
  "string list \<Rightarrow> cache \<Rightarrow> string \<Rightarrow> panic + (go_error + cache \<times> string)" where
  "convertWithCache_loop [] c writer = Inr (Inr (c, writer))"
| "convertWithCache_loop (line # rest) c writer =
     (case Get c line of
        (cachedValue, True) \<Rightarrow> convertWithCache_loop rest c (writer @ cachedValue @ newline)
      | (cachedValue, False) \<Rightarrow>
          (let parts = Split line CHR '':'' in
           case index parts 0 of
             Inl p \<Rightarrow> Inl p
           | Inr matrixSize \<Rightarrow>
               (case index parts 1 of
                  Inl p \<Rightarrow> Inl p
                | Inr binaryStr \<Rightarrow>
                    (case binToHex binaryStr of
                       (hexStr, Some err) \<Rightarrow> Inr (Inl err)
                     | (hexStr, None) \<Rightarrow>
                         (let newLine = matrixSize @ '':'' @ hexStr in
                          case Set c line newLine of
                            Inl p \<Rightarrow> Inl p
                          | Inr c' \<Rightarrow>
                              convertWithCache_loop rest c' (writer @ newLine @ newline))))))"

definition convertWithCache ::
  "go_error + scanned \<Rightarrow> go_error option \<Rightarrow> cache \<Rightarrow> panic + (go_error option \<times> cache \<times> string)"
  where
  "convertWithCache input created c =
     (case input of
        Inl err \<Rightarrow> Inr (Some err, c, '''')
      | Inr scanner \<Rightarrow>
          (case created of
             Some err \<Rightarrow> Inr (Some err, c, '''')
           | None \<Rightarrow>
               (case convertWithCache_loop (scan_lines scanner) c '''' of
                  Inl p \<Rightarrow> Inl p
                | Inr (Inl err) \<Rightarrow> Inr (Some err, c, '''')
                | Inr (Inr (c', writer)) \<Rightarrow> Inr (scan_err scanner, c', writer))))"

section \<open>Vocabulary of the properties\<close>

text \<open>A bit string has only the characters 0 and 1; a valid hex string has even length
  and only hex digits, in either case.\<close>

definition is_bit_string :: "string \<Rightarrow> bool" where
  "is_bit_string s = list_all (\<lambda>c. c = CHR ''0'' \<or> c = CHR ''1'') s"

definition is_hex_digit :: "char \<Rightarrow> bool" where
  "is_hex_digit c = (c \<in> set ''0123456789abcdefABCDEF'')"

definition is_hex_string :: "string \<Rightarrow> bool" where
  "is_hex_string h = (length h mod 2 = 0 \<and> list_all is_hex_digit h)"

text \<open>One step of the inner loop of \<open>binToHex\<close>, the value it computes for one group, and
  the groups of eight the outer loop visits.\<close>

definition shift_in :: "byte \<Rightarrow> char \<Rightarrow> byte" where
  "shift_in a c = push_bit 1 a OR (of_char c - of_char CHR ''0'')"

definition chunk_value :: "string \<Rightarrow> byte" where
  "chunk_value cs = foldl shift_in 0 cs"

function chunks8 :: "string \<Rightarrow> string list" where
  "chunks8 s = (if s = [] then [] else take 8 s # chunks8 (drop 8 s))"
  by pat_completeness auto
termination
  by (relation "measure length") auto

declare chunks8.simps [simp del]

text \<open>A sequence of \<open>Get\<close> and \<open>Set\<close> calls on one cache, stopped by the first panic;
  \<open>Get\<close> leaves the cache as it is. \<open>inserted\<close> lists the keys such a sequence stores, in the
  order of the calls that store them (a \<open>Set\<close> whose key is present stores nothing).\<close>

datatype op = OpGet string | OpSet string string

fun run :: "cache \<Rightarrow> op list \<Rightarrow> panic + cache" where
  "run c [] = Inr c"
| "run c (OpGet k # ops) = run c ops"
| "run c (OpSet k v # ops) = (case Set c k v of Inl p \<Rightarrow> Inl p | Inr c' \<Rightarrow> run c' ops)"

fun inserted :: "cache \<Rightarrow> op list \<Rightarrow> string list" where
  "inserted c [] = []"
| "inserted c (OpGet k # ops) = inserted c ops"
| "inserted c (OpSet k v # ops) =
     (case Set c k v of
        Inl p \<Rightarrow> []
      | Inr c' \<Rightarrow> (if entries c k = None then [k] else []) @ inserted c' ops)"

definition cache_inv :: "cache \<Rightarrow> bool" where
  "cache_inv c =
     (1 \<le> maxEntries c \<and> int (length (keys c)) \<le> maxEntries c \<and> distinct (keys c) \<and>
      set (keys c) = dom (entries c))"

text \<open>The two tokens of a record line in the words of the specification: the size token
  is what stands before the first colon, the payload token the substring after it.\<close>

definition size_token :: "string \<Rightarrow> string" where
  "size_token line = takeWhile (\<lambda>c. c \<noteq> CHR '':'') line"

definition payload_token :: "string \<Rightarrow> string" where
  "payload_token line = tl (dropWhile (\<lambda>c. c \<noteq> CHR '':'') line)"

text \<open>The output line both loops compose for an input line with a colon.\<close>

definition composed :: "string \<Rightarrow> string" where
  "composed line =
     size_token line @ '':'' @ fst (binToHex (takeWhile (\<lambda>c. c \<noteq> CHR '':'') (payload_token line)))"

text \<open>Every value the cache holds is the output line composed for its key.\<close>

definition coherent :: "cache \<Rightarrow> bool" where
  "coherent c = (\<forall>k v. entries c k = Some v \<longrightarrow> v = composed k)"

section \<open>Codec: auxiliary facts\<close>

lemma binToHex_index_in_range: "i < length binStr \<Longrightarrow> i div 8 < (length binStr + 7) div 8"
  by arith

lemma mask_15: "(0x0f::byte) = mask 4"
  by (simp add: mask_eq_exp_minus_1)

lemma nibbles_join: "push_bit 4 (drop_bit 4 (v::byte)) OR (v AND 0x0f) = v"
  unfolding mask_15
  by (rule bit_eqI)
    (auto simp: bit_or_iff bit_push_bit_iff bit_drop_bit_eq bit_and_iff bit_mask_iff not_less)

lemma nibble_hi: 
  assumes "take_bit 4 a = a" "take_bit 4 b = b"
  shows "drop_bit 4 (push_bit 4 (a::byte) OR b) = a"
proof (rule bit_eqI)
  fix i
  have a: "bit a i \<longleftrightarrow> i < 4 \<and> bit a i" for i
    using assms(1) by (metis bit_take_bit_iff)
  have b: "bit b i \<longleftrightarrow> i < 4 \<and> bit b i" for i
    using assms(2) by (metis bit_take_bit_iff)
  show "bit (drop_bit 4 (push_bit 4 a OR b)) i = bit a i"
    using a [of i] b [of "4 + i"]
    by (auto simp: bit_or_iff bit_push_bit_iff bit_drop_bit_eq)
qed

lemma nibble_lo: 
  assumes "take_bit 4 a = a" "take_bit 4 b = b"
  shows "(push_bit 4 (a::byte) OR b) AND 0x0f = b"
  unfolding mask_15
proof (rule bit_eqI)
  fix i
  have b: "bit b i \<longleftrightarrow> i < 4 \<and> bit b i" for i
    using assms(2) by (metis bit_take_bit_iff)
  show "bit ((push_bit 4 a OR b) AND mask 4) i = bit b i"
    using b [of i]
    by (auto simp: bit_or_iff bit_push_bit_iff bit_and_iff bit_mask_iff)
qed

lemma unat_hi: "unat (drop_bit 4 (v::byte)) < 16"
proof -
  have "unat v < 256" using unsigned_less [of v, where ?'a = nat] by simp
  moreover have "unat (drop_bit 4 v) = drop_bit 4 (unat v)"
    by (rule unat_drop_bit_eq)
  moreover have "drop_bit 4 (unat v) = unat v div 2 ^ 4"
    by (rule drop_bit_eq_div)
  ultimately show ?thesis by simp
qed

lemma unat_lo: "unat ((v::byte) AND 0x0f) < 16"
proof -
  have "unat (take_bit 4 v) = take_bit 4 (unat v)" by (simp add: unsigned_take_bit_eq)
  also have "\<dots> < 2 ^ 4" by (rule take_bit_nat_less_exp)
  finally have "unat (take_bit 4 v) < 16" by simp
  then show ?thesis unfolding mask_15 by (simp only: take_bit_eq_mask)
qed

lemma digit_cases: "k < 16 \<Longrightarrow>
  k = 0 \<or> k = 1 \<or> k = 2 \<or> k = 3 \<or> k = 4 \<or> k = 5 \<or> k = 6 \<or> k = 7 \<or>
  k = 8 \<or> k = 9 \<or> k = 10 \<or> k = 11 \<or> k = 12 \<or> k = 13 \<or> k = 14 \<or> k = (15::nat)"
  by arith

lemma fromHexChar_hextable:
  assumes "k < 16"
  shows "fromHexChar (upper_char (hextable ! k)) = Some (of_nat k)"
  using digit_cases [OF assms]
  by (elim disjE) (simp_all add: hextable_def upper_char_def fromHexChar_def)

lemma fromHexChar_digit:
  assumes "unat (x::byte) < 16"
  shows "fromHexChar (upper_char (hextable ! unat x)) = Some x"
  using fromHexChar_hextable [OF assms] by simp

lemma Decode_Encode:
  "Decode (ToUpper (EncodeToString bs)) dst = (dst @ bs, None)"
proof (induction bs arbitrary: dst)
  case Nil
  then show ?case by (simp add: ToUpper_def EncodeToString_def)
next
  case (Cons v bs)
  have "ToUpper (EncodeToString (v # bs)) =
      upper_char (hextable ! unat (drop_bit 4 v)) # upper_char (hextable ! unat (v AND 0x0f))
        # ToUpper (EncodeToString bs)"
    by (simp add: ToUpper_def EncodeToString_def)
  then show ?case
    by (simp add: fromHexChar_digit unat_hi unat_lo nibbles_join Cons.IH del: of_nat_numeral)
qed


lemma char_of_hex_digits:
  "char_of (48::nat) = CHR ''0''"
  "char_of (49::nat) = CHR ''1''"
  "char_of (50::nat) = CHR ''2''"
  "char_of (51::nat) = CHR ''3''"
  "char_of (52::nat) = CHR ''4''"
  "char_of (53::nat) = CHR ''5''"
  "char_of (54::nat) = CHR ''6''"
  "char_of (55::nat) = CHR ''7''"
  "char_of (56::nat) = CHR ''8''"
  "char_of (57::nat) = CHR ''9''"
  "char_of (97::nat) = CHR ''a''"
  "char_of (98::nat) = CHR ''b''"
  "char_of (99::nat) = CHR ''c''"
  "char_of (100::nat) = CHR ''d''"
  "char_of (101::nat) = CHR ''e''"
  "char_of (102::nat) = CHR ''f''"
  "char_of (65::nat) = CHR ''A''"
  "char_of (66::nat) = CHR ''B''"
  "char_of (67::nat) = CHR ''C''"
  "char_of (68::nat) = CHR ''D''"
  "char_of (69::nat) = CHR ''E''"
  "char_of (70::nat) = CHR ''F''"
  by code_simp+

lemma fromHexChar_nibble:
  assumes "fromHexChar p = Some a"
  shows "take_bit 4 a = a \<and> upper_char (hextable ! unat a) = upper_char p"
proof -
  define n where "n = (of_char p :: nat)"
  have p: "p = char_of n" by (simp add: n_def)
  from assms have "48 \<le> n \<and> n \<le> 57 \<or> 97 \<le> n \<and> n \<le> 102 \<or> 65 \<le> n \<and> n \<le> 70"
    unfolding fromHexChar_def Let_def n_def [symmetric] by (auto split: if_splits)
  then have "n = 48 \<or> n = 49 \<or> n = 50 \<or> n = 51 \<or> n = 52 \<or> n = 53 \<or> n = 54 \<or> n = 55
      \<or> n = 56 \<or> n = 57 \<or> n = 97 \<or> n = 98 \<or> n = 99 \<or> n = 100 \<or> n = 101 \<or> n = 102
      \<or> n = 65 \<or> n = 66 \<or> n = 67 \<or> n = 68 \<or> n = 69 \<or> n = 70"
    by arith
  then show ?thesis using assms unfolding p
    by (elim disjE) (simp_all add: hextable_def upper_char_def fromHexChar_def char_of_hex_digits)
qed

lemma inner_foldl:
  "j \<le> 8 \<Longrightarrow> binToHex_inner s i j acc = foldl shift_in acc (take (8 - j) (drop (i + j) s))"
proof (induction s i j acc rule: binToHex_inner.induct)
  case (1 binStr i j binByte)
  show ?case
  proof (cases "j < 8 \<and> i + j < length binStr")
    case True
    then have d: "drop (i + j) binStr = binStr ! (i + j) # drop (i + (j + 1)) binStr"
      by (simp add: Cons_nth_drop_Suc)
    from True have t: "8 - j = Suc (8 - (j + 1))" by arith
    have e1: "binToHex_inner binStr i j binByte =
        binToHex_inner binStr i (j + 1) (shift_in binByte (binStr ! (i + j)))"
      using True by (subst binToHex_inner.simps) (simp add: shift_in_def)
    have e2: "binToHex_inner binStr i (j + 1) (shift_in binByte (binStr ! (i + j))) =
        foldl shift_in (shift_in binByte (binStr ! (i + j)))
          (take (8 - (j + 1)) (drop (i + (j + 1)) binStr))"
    proof -
      from True have le: "j + 1 \<le> 8" by simp
      show ?thesis by (rule "1.IH" [OF True le, folded shift_in_def])
    qed
    have e3: "take (8 - j) (drop (i + j) binStr) =
        binStr ! (i + j) # take (8 - (j + 1)) (drop (i + (j + 1)) binStr)"
      unfolding d t by simp
    show ?thesis unfolding e1 e2 e3 by simp
  next
    case False
    then show ?thesis using "1.prems" by (subst binToHex_inner.simps) auto
  qed
qed

lemma inner_chunk: "binToHex_inner s i 0 0 = chunk_value (take 8 (drop i s))"
  using inner_foldl [of 0 s i 0] by (simp add: chunk_value_def)

lemma outer_chunks:
  "8 dvd i \<Longrightarrow> length bs = (length s + 7) div 8 \<Longrightarrow>
   binToHex_outer s i bs = take (i div 8) bs @ map chunk_value (chunks8 (drop i s))"
proof (induction s i bs rule: binToHex_outer.induct)
  case (1 binStr i binBytes)
  show ?case
  proof (cases "i < length binStr")
    case True
    let ?v = "binToHex_inner binStr i 0 0"
    have k: "i div 8 < length binBytes"
      unfolding "1.prems"(2) using True by (rule binToHex_index_in_range)
    have step: "(i + 8) div 8 = Suc (i div 8)" by simp
    have e1: "binToHex_outer binStr i binBytes =
        binToHex_outer binStr (i + 8) (binBytes[i div 8 := ?v])"
      using True by (subst binToHex_outer.simps) simp
    have e2: "binToHex_outer binStr (i + 8) (binBytes[i div 8 := ?v]) =
        take ((i + 8) div 8) (binBytes[i div 8 := ?v])
         @ map chunk_value (chunks8 (drop (i + 8) binStr))"
      using True "1.prems" by (intro "1.IH") auto
    have e3: "take ((i + 8) div 8) (binBytes[i div 8 := ?v]) = take (i div 8) binBytes @ [?v]"
      using k unfolding step by (simp add: take_Suc_conv_app_nth)
    have e4: "chunks8 (drop i binStr) = take 8 (drop i binStr) # chunks8 (drop (i + 8) binStr)"
    proof -
      from True have ne: "drop i binStr \<noteq> []" by simp
      have dd: "drop 8 (drop i binStr) = drop (i + 8) binStr" by (simp add: add.commute)
      show ?thesis by (subst chunks8.simps) (simp only: ne dd if_False)
    qed
    show ?thesis unfolding e1 e2 e3 e4 by (simp add: inner_chunk)
  next
    case False
    from "1.prems"(1) obtain k where ik: "i = 8 * k" ..
    from False have "(length binStr + 7) div 8 \<le> k" unfolding ik by linarith
    then have "length binBytes \<le> i div 8" using "1.prems"(2) ik by simp
    moreover from False have "drop i binStr = []" by simp
    moreover have "chunks8 [] = []" by (subst chunks8.simps) simp
    moreover have "binToHex_outer binStr i binBytes = binBytes"
      using False by (subst binToHex_outer.simps) simp
    ultimately show ?thesis by simp
  qed
qed

lemma binToHex_chunks:
  "binToHex s = (ToUpper (EncodeToString (map chunk_value (chunks8 s))), None)"
  unfolding binToHex_def Let_def using outer_chunks [of 0 "replicate ((length s + 7) div 8) 0" s]
  by simp

lemma bit_push1: "bit (push_bit 1 (a::byte)) i \<longleftrightarrow> 0 < i \<and> i < 8 \<and> bit a (i - 1)"
  by (simp only: bit_push_bit_iff possible_bit_word) auto

lemma bit_shift_in:
  assumes "c = CHR ''0'' \<or> c = CHR ''1''"
  shows "bit (shift_in a c) i \<longleftrightarrow> (i = 0 \<and> c = CHR ''1'') \<or> (0 < i \<and> i < 8 \<and> bit a (i - 1))"
proof -
  have "of_char c - of_char CHR ''0'' = (of_bool (c = CHR ''1'') :: byte)"
    using assms by auto
  then have "shift_in a c = push_bit 1 a OR of_bool (c = CHR ''1'')"
    by (simp only: shift_in_def)
  then show ?thesis
    by (simp only: bit_or_iff bit_push1 bit_of_bool_iff) auto
qed

lemma bit_chunk_value:
  "is_bit_string cs \<Longrightarrow> length cs \<le> 8 \<Longrightarrow>
   bit (chunk_value cs) i \<longleftrightarrow> i < length cs \<and> cs ! (length cs - 1 - i) = CHR ''1''"
proof (induction cs arbitrary: i rule: rev_induct)
  case Nil
  then show ?case by (simp add: chunk_value_def)
next
  case (snoc c cs)
  from snoc.prems have c: "c = CHR ''0'' \<or> c = CHR ''1''" and b: "is_bit_string cs"
    and l: "length cs < 8"
    by (auto simp: is_bit_string_def)
  have v: "chunk_value (cs @ [c]) = shift_in (chunk_value cs) c"
    by (simp add: chunk_value_def)
  show ?case
  proof (cases i)
    case 0
    then show ?thesis unfolding v using c by (simp add: bit_shift_in)
  next
    case (Suc m)
    have "bit (chunk_value cs) m \<longleftrightarrow> m < length cs \<and> cs ! (length cs - 1 - m) = CHR ''1''"
      using snoc.IH [of m] b l by simp
    then show ?thesis unfolding v using c l Suc
      by (auto simp: bit_shift_in nth_append)
  qed
qed

lemma Sprintf_08b_length: "length (Sprintf_08b b) = 8"
  by (simp add: Sprintf_08b_def)

lemma bit_index_nth: "p < 8 \<Longrightarrow> [7, 6, 5, 4, 3, 2, 1, 0::nat] ! p = 7 - p"
proof -
  assume "p < 8"
  then have "p = 0 \<or> p = 1 \<or> p = 2 \<or> p = 3 \<or> p = 4 \<or> p = 5 \<or> p = 6 \<or> p = 7" by arith
  then show ?thesis by (elim disjE) simp_all
qed

lemma Sprintf_08b_nth:
  "p < 8 \<Longrightarrow> Sprintf_08b b ! p = (if bit b (7 - p) then CHR ''1'' else CHR ''0'')"
proof -
  assume p: "p < 8"
  then have "p < length [7, 6, 5, 4, 3, 2, 1, 0::nat]" by simp
  then have "map (\<lambda>i. if bit b i then CHR ''1'' else CHR ''0'') [7, 6, 5, 4, 3, 2, 1, 0] ! p
      = (if bit b ([7, 6, 5, 4, 3, 2, 1, 0] ! p) then CHR ''1'' else CHR ''0'')"
    by (rule nth_map)
  then show ?thesis unfolding Sprintf_08b_def by (simp only: bit_index_nth [OF p])
qed

lemma Sprintf_chunk_value:
  assumes "is_bit_string cs" "length cs \<le> 8"
  shows "Sprintf_08b (chunk_value cs) = replicate (8 - length cs) CHR ''0'' @ cs"
proof (rule nth_equalityI)
  show "length (Sprintf_08b (chunk_value cs)) = length (replicate (8 - length cs) CHR ''0'' @ cs)"
    using assms by (simp add: Sprintf_08b_length)
next
  fix p assume "p < length (Sprintf_08b (chunk_value cs))"
  then have p: "p < 8" by (simp add: Sprintf_08b_length)
  show "Sprintf_08b (chunk_value cs) ! p = (replicate (8 - length cs) CHR ''0'' @ cs) ! p"
  proof (cases "p < 8 - length cs")
    case True
    then have "\<not> 7 - p < length cs" by arith
    then show ?thesis using p assms True
      by (simp add: Sprintf_08b_nth bit_chunk_value nth_append)
  next
    case False
    then have i: "length cs - 1 - (7 - p) = p - (8 - length cs)" and j: "7 - p < length cs"
      and k: "p - (8 - length cs) < length cs"
      using p assms(2) by arith+
    from k assms(1) have "cs ! (p - (8 - length cs)) = CHR ''0'' \<or> cs ! (p - (8 - length cs)) = CHR ''1''"
      by (simp add: is_bit_string_def list_all_length)
    then show ?thesis using p assms False i j
      by (auto simp: Sprintf_08b_nth bit_chunk_value nth_append)
  qed
qed

lemma is_bit_string_Sprintf: "is_bit_string (Sprintf_08b b)"
  unfolding is_bit_string_def list_all_length
  by (simp add: Sprintf_08b_length Sprintf_08b_nth)

lemma chunk_value_Sprintf: "chunk_value (Sprintf_08b b) = b"
proof (rule bit_eqI)
  fix i
  have "bit b i \<Longrightarrow> i < 8" using bit_imp_le_length [of b i] by simp
  then show "bit (chunk_value (Sprintf_08b b)) i = bit b i"
    using bit_chunk_value [OF is_bit_string_Sprintf, of b i]
    by (auto simp: Sprintf_08b_length Sprintf_08b_nth)
qed

lemma foldl_Sprintf:
  "foldl (\<lambda>binStr b. binStr @ Sprintf_08b b) acc bs = acc @ concat (map Sprintf_08b bs)"
  by (induction bs arbitrary: acc) simp_all

lemma hexToBin_Encode:
  "hexToBin (ToUpper (EncodeToString bs)) = (concat (map Sprintf_08b bs), None)"
  by (simp add: hexToBin_def DecodeString_def Decode_Encode foldl_Sprintf)

lemma hexToBin_binToHex:
  "hexToBin (fst (binToHex s)) = (concat (map Sprintf_08b (map chunk_value (chunks8 s))), None)"
  by (simp only: binToHex_chunks fst_conv hexToBin_Encode)

lemma chunks8_Nil: "chunks8 [] = []"
  by (subst chunks8.simps) simp

lemma chunks8_Cons: "s \<noteq> [] \<Longrightarrow> chunks8 s = take 8 s # chunks8 (drop 8 s)"
  by (subst chunks8.simps) simp

lemma is_bit_string_take: "is_bit_string s \<Longrightarrow> is_bit_string (take n s)"
  unfolding is_bit_string_def list_all_iff by (auto dest: in_set_takeD)

lemma is_bit_string_drop: "is_bit_string s \<Longrightarrow> is_bit_string (drop n s)"
  unfolding is_bit_string_def list_all_iff by (auto dest: in_set_dropD)

lemma decoded_chunks:
  "is_bit_string s \<Longrightarrow>
   concat (map Sprintf_08b (map chunk_value (chunks8 s))) =
     take (8 * (length s div 8)) s @
     (if length s mod 8 = 0 then []
      else replicate (8 - length s mod 8) CHR ''0'' @ drop (8 * (length s div 8)) s)"
proof (induction s rule: chunks8.induct)
  case (1 s)
  show ?case
  proof (cases "s = []")
    case True
    then show ?thesis by (simp add: chunks8_Nil)
  next
    case ne: False
    show ?thesis
    proof (cases "length s < 8")
      case True
      then have "chunks8 s = [s]" using ne by (simp add: chunks8_Cons chunks8_Nil)
      moreover have "Sprintf_08b (chunk_value s) = replicate (8 - length s) CHR ''0'' @ s"
        using "1.prems" True by (intro Sprintf_chunk_value) simp_all
      ultimately show ?thesis using True ne by simp
    next
      case False
      define q where "q = length s div 8 - 1"
      from False have q: "length s div 8 = Suc q" unfolding q_def by arith
      have l: "length (drop 8 s) div 8 = q" "length (drop 8 s) mod 8 = length s mod 8"
        using False q by (simp_all add: le_mod_geq)
      have h: "Sprintf_08b (chunk_value (take 8 s)) = take 8 s"
        using Sprintf_chunk_value [of "take 8 s"] "1.prems" False
        by (simp add: is_bit_string_take)
      have ih: "concat (map Sprintf_08b (map chunk_value (chunks8 (drop 8 s)))) =
          take (8 * q) (drop 8 s) @
          (if length s mod 8 = 0 then []
           else replicate (8 - length s mod 8) CHR ''0'' @ drop (8 * q) (drop 8 s))"
        using "1.IH" [OF ne is_bit_string_drop [OF "1.prems"]] unfolding l .
      have t: "take (8 * Suc q) s = take 8 s @ take (8 * q) (drop 8 s)"
        using take_add [of 8 "8 * q" s] by simp
      have d: "drop (8 * q) (drop 8 s) = drop (8 * Suc q) s"
        by (simp add: add.commute)
      show ?thesis
        unfolding chunks8_Cons [OF ne] q t using h ih d by simp
    qed
  qed
qed

lemma is_hex_digit_fromHexChar: "is_hex_digit c \<Longrightarrow> \<exists>a. fromHexChar c = Some a"
  unfolding is_hex_digit_def by (auto simp: fromHexChar_def)

lemma Encode_pair:
  assumes "fromHexChar p = Some a" "fromHexChar q = Some b"
  shows "ToUpper (EncodeToString [push_bit 4 a OR b]) = ToUpper [p, q]"
proof -
  define x where "x = push_bit 4 a OR b"
  note na = fromHexChar_nibble [OF assms(1)] and nb = fromHexChar_nibble [OF assms(2)]
  have hi: "drop_bit 4 x = a" unfolding x_def using na nb by (intro nibble_hi) simp_all
  have lo: "x AND 0x0f = b" unfolding x_def using na nb by (intro nibble_lo) simp_all
  have "ToUpper (EncodeToString [x]) = ToUpper [p, q]"
    using na nb by (simp add: ToUpper_def EncodeToString_def hi lo)
  then show ?thesis unfolding x_def .
qed

lemma ToUpper_Encode_append:
  "ToUpper (EncodeToString (xs @ ys)) = ToUpper (EncodeToString xs) @ ToUpper (EncodeToString ys)"
  by (simp add: ToUpper_def EncodeToString_def)

lemma Decode_valid:
  "is_hex_string h \<Longrightarrow>
   \<exists>bs. Decode h dst = (dst @ bs, None) \<and> ToUpper (EncodeToString bs) = ToUpper h"
proof (induction h dst rule: Decode.induct)
  case (1 dst)
  then show ?case by (simp add: ToUpper_def EncodeToString_def)
next
  case (2 p dst)
  then show ?case by (simp add: is_hex_string_def)
next
  case (3 p q src dst)
  from "3.prems" have hp: "is_hex_digit p" and hq: "is_hex_digit q" and hs: "is_hex_string src"
    by (simp_all add: is_hex_string_def)
  from hp obtain a where a: "fromHexChar p = Some a" using is_hex_digit_fromHexChar by blast
  from hq obtain b where b: "fromHexChar q = Some b" using is_hex_digit_fromHexChar by blast
  from "3.IH" [OF a b hs] obtain bs where
    bs: "Decode src ((dst @ [push_bit 4 a OR b])) = ((dst @ [push_bit 4 a OR b]) @ bs, None)"
      "ToUpper (EncodeToString bs) = ToUpper src"
    by blast
  have "ToUpper (EncodeToString ((push_bit 4 a OR b) # bs)) = ToUpper (p # q # src)"
    using ToUpper_Encode_append [of "[push_bit 4 a OR b]" bs] Encode_pair [OF a b] bs(2)
    by (simp add: ToUpper_def)
  then show ?case using a b bs(1) by auto
qed

lemma chunks8_Sprintf: "chunks8 (concat (map Sprintf_08b bs)) = map Sprintf_08b bs"
proof (induction bs)
  case Nil
  then show ?case by (simp add: chunks8_Nil)
next
  case (Cons b bs)
  have "Sprintf_08b b \<noteq> []" using Sprintf_08b_length [of b] by auto
  then have "chunks8 (Sprintf_08b b @ concat (map Sprintf_08b bs)) =
      Sprintf_08b b # chunks8 (concat (map Sprintf_08b bs))"
    by (subst chunks8_Cons) (simp_all add: Sprintf_08b_length)
  then show ?case using Cons.IH by simp
qed

lemma binToHex_Sprintf:
  "binToHex (concat (map Sprintf_08b bs)) = (ToUpper (EncodeToString bs), None)"
  by (simp add: binToHex_chunks chunks8_Sprintf chunk_value_Sprintf comp_def)

section \<open>Codec: the claims\<close>

text \<open>
  C8. For every bit string \<open>b\<close> (characters 0 and 1 only) whose length is a multiple of 8,
  decoding the encoding of \<open>b\<close> gives \<open>b\<close> back: \<open>hexToBin\<close> applied to the hex string
  returned by \<open>binToHex b\<close> returns exactly \<open>b\<close>, with no error.
\<close>

theorem decode_encode_roundtrip:
  assumes "is_bit_string b" and "length b mod 8 = 0"
  shows "hexToBin (fst (binToHex b)) = (b, None)"
proof -
  have "8 * (length b div 8) = length b"
    using mult_div_mod_eq [of 8 "length b"] assms(2) by simp
  then show ?thesis
    unfolding hexToBin_binToHex decoded_chunks [OF assms(1)] using assms(2) by simp
qed

theorem decode_encode_roundtrip_witness:
  "is_bit_string ''0100000111110000'' \<and> length ''0100000111110000'' mod 8 = 0 \<and>
   hexToBin (fst (binToHex ''0100000111110000'')) = (''0100000111110000'', None)"
  using decode_encode_roundtrip [of "''0100000111110000''"] by (simp add: is_bit_string_def)

text \<open>
  C1, as the specification states it, fails: the last group is not padded with trailing
  zeros. The one-bit string \<open>1\<close> is encoded as \<open>01\<close> and decoded as \<open>00000001\<close>, whose
  first character is not \<open>1\<close>.
\<close>

theorem decode_encode_padding_counterexample:
  "is_bit_string ''1'' \<and> length ''1'' mod 8 \<noteq> 0 \<and>
   hexToBin (fst (binToHex ''1'')) = (''00000001'', None) \<and>
   take (length ''1'') ''00000001'' \<noteq> ''1''"
  by code_simp

text \<open>
  C1, amended. For every bit string \<open>b\<close> whose length is not a multiple of 8, decoding the
  encoding of \<open>b\<close> gives a string of length \<open>8 * ceil (length b / 8)\<close> that is \<open>b\<close> with
  zeros inserted in front of its last, incomplete group: the complete groups of eight
  come first unchanged, then \<open>8 - length b mod 8\<close> zeros, then the remaining
  \<open>length b mod 8\<close> characters of \<open>b\<close>.
\<close>

theorem decode_encode_padding:
  assumes "is_bit_string b" and "length b mod 8 \<noteq> 0"
  shows "hexToBin (fst (binToHex b)) =
           (take (8 * (length b div 8)) b @ replicate (8 - length b mod 8) CHR ''0''
              @ drop (8 * (length b div 8)) b, None)
         \<and> length (fst (hexToBin (fst (binToHex b)))) = 8 * ((length b + 7) div 8)"
proof -
  have e: "hexToBin (fst (binToHex b)) =
           (take (8 * (length b div 8)) b @ replicate (8 - length b mod 8) CHR ''0''
              @ drop (8 * (length b div 8)) b, None)"
    unfolding hexToBin_binToHex decoded_chunks [OF assms(1)] using assms(2) by simp
  have "min (length b) (8 * (length b div 8)) = 8 * (length b div 8)" by simp
  moreover have "(length b + 7) div 8 = Suc (length b div 8)"
  proof -
    have "length b + 7 = 8 * (length b div 8) + (length b mod 8 + 7)" by simp
    moreover have "(length b mod 8 + 7) div 8 = 1" using assms(2) by simp
    ultimately show ?thesis by (metis Suc_eq_plus1 div_mult_self4 zero_neq_numeral add.commute)
  qed
  moreover have "length b - 8 * (length b div 8) = length b mod 8"
    by (rule minus_mult_div_eq_mod)
  moreover have "length b mod 8 < 8" by simp
  ultimately have "length (fst (hexToBin (fst (binToHex b)))) = 8 * ((length b + 7) div 8)"
    unfolding e by simp
  with e show ?thesis by simp
qed

theorem decode_encode_padding_witness:
  "is_bit_string ''0100000111'' \<and> length ''0100000111'' mod 8 \<noteq> 0 \<and>
   hexToBin (fst (binToHex ''0100000111'')) = (''0100000100000011'', None) \<and>
   length (fst (hexToBin (fst (binToHex ''0100000111'')))) = 16"
proof -
  have r: "replicate 6 CHR ''0'' = ''000000''"
    by code_simp
  show ?thesis
    using decode_encode_padding [of "''0100000111''"] by (simp add: is_bit_string_def r)
qed

text \<open>
  C9. For every valid hex string \<open>h\<close> (even length, hex digits only, in either case),
  encoding the decoding of \<open>h\<close> gives \<open>h\<close> in upper case: \<open>binToHex\<close> applied to the binary
  string returned by \<open>hexToBin h\<close> returns \<open>ToUpper h\<close>, with no error.
\<close>

theorem encode_decode_uppercase:
  assumes "is_hex_string h"
  shows "binToHex (fst (hexToBin h)) = (ToUpper h, None)"
proof -
  from Decode_valid [OF assms, of "[]"] obtain bs where
    bs: "Decode h [] = (bs, None)" "ToUpper (EncodeToString bs) = ToUpper h"
    by auto
  have "hexToBin h = (concat (map Sprintf_08b bs), None)"
    by (simp add: hexToBin_def DecodeString_def bs(1) foldl_Sprintf)
  then show ?thesis by (simp add: binToHex_Sprintf bs(2))
qed

theorem encode_decode_uppercase_witness:
  "is_hex_string ''4aFf09'' \<and> binToHex (fst (hexToBin ''4aFf09'')) = (''4AFF09'', None)"
proof -
  have h: "is_hex_string ''4aFf09''"
    by (simp add: is_hex_string_def is_hex_digit_def)
  have u: "ToUpper ''4aFf09'' = ''4AFF09''"
    by code_simp
  show ?thesis using h encode_decode_uppercase [OF h] u by simp
qed

section \<open>Cache: auxiliary facts\<close>

lemma card_dom_keys: "cache_inv c \<Longrightarrow> card (dom (entries c)) = length (keys c)"
  unfolding cache_inv_def using distinct_card [of "keys c"] by simp

lemma cache_inv_length: "cache_inv c \<Longrightarrow> length (keys c) \<le> nat (maxEntries c)"
  unfolding cache_inv_def by linarith

lemma Set_present: "entries c k = Some old \<Longrightarrow> Set c k v = Inr c"
  by (simp add: Set_def)

lemma Set_absent:
  assumes "cache_inv c" and "entries c k = None"
  shows "Set c k v =
     Inr (c\<lparr>keys := (if maxEntries c \<le> int (length (keys c)) then tl (keys c) else keys c) @ [k],
            entries := (if maxEntries c \<le> int (length (keys c))
                        then (entries c)(hd (keys c) := None) else entries c)(k \<mapsto> v)\<rparr>)"
proof (cases "keys c")
  case Nil
  then have "\<not> maxEntries c \<le> int (length (keys c))"
    using assms(1) by (simp add: cache_inv_def)
  then show ?thesis
    using assms(2) by (simp add: Set_def card_dom_keys [OF assms(1)])
next
  case (Cons oldestKey rest)
  then show ?thesis
    using assms(2) by (simp add: Set_def card_dom_keys [OF assms(1)])
qed

lemma Set_absent_inv:
  assumes "cache_inv c" and "entries c k = None" and "Set c k v = Inr c'"
  shows "cache_inv c'"
proof -
  from assms(1) have k: "k \<notin> set (keys c)" using assms(2) by (auto simp: cache_inv_def)
  show ?thesis
  proof (cases "maxEntries c \<le> int (length (keys c))")
    case True
    then obtain oldestKey rest where kc: "keys c = oldestKey # rest"
      using assms(1) by (cases "keys c") (auto simp: cache_inv_def)
    have c': "c' = c\<lparr>keys := rest @ [k], entries := ((entries c)(oldestKey := None))(k \<mapsto> v)\<rparr>"
      using assms(3) True kc unfolding Set_absent [OF assms(1,2)] by simp
    have "dom (entries c) - {oldestKey} = set rest"
      using assms(1) kc by (auto simp: cache_inv_def)
    then show ?thesis
      using assms(1) k kc unfolding c' cache_inv_def by auto
  next
    case False
    have c': "c' = c\<lparr>keys := keys c @ [k], entries := (entries c)(k \<mapsto> v)\<rparr>"
      using assms(3) False unfolding Set_absent [OF assms(1,2)] by simp
    show ?thesis
      using assms(1) k False unfolding c' cache_inv_def by auto
  qed
qed

lemma Set_inv:
  assumes "cache_inv c"
  shows "\<exists>c'. Set c k v = Inr c' \<and> cache_inv c' \<and> maxEntries c' = maxEntries c"
proof (cases "entries c k")
  case None
  from Set_absent [OF assms None, of v] obtain c' where c': "Set c k v = Inr c'"
    and m: "maxEntries c' = maxEntries c"
    by simp
  with Set_absent_inv [OF assms None c'] show ?thesis by simp
next
  case (Some old)
  then show ?thesis using assms by (simp add: Set_present)
qed

lemma Set_keys:
  assumes "cache_inv c" and "Set c k v = Inr c'"
  shows "keys c' =
     drop (length (keys c @ (if entries c k = None then [k] else [])) - nat (maxEntries c))
       (keys c @ (if entries c k = None then [k] else []))"
proof (cases "entries c k")
  case None
  from assms(1) have le: "int (length (keys c)) \<le> maxEntries c" and pos: "1 \<le> maxEntries c"
    by (simp_all add: cache_inv_def)
  show ?thesis
  proof (cases "maxEntries c \<le> int (length (keys c))")
    case True
    with le have n: "nat (maxEntries c) = length (keys c)" by simp
    from True pos have ne: "keys c \<noteq> []" by auto
    have "keys c' = tl (keys c) @ [k]"
      using assms(2) True unfolding Set_absent [OF assms(1) None] by auto
    moreover have "length (keys c @ [k]) - nat (maxEntries c) = 1" using n by simp
    moreover have "drop 1 (keys c @ [k]) = tl (keys c) @ [k]"
      using ne by (cases "keys c") simp_all
    ultimately show ?thesis using None by simp
  next
    case False
    then have n: "length (keys c) + 1 \<le> nat (maxEntries c)" by simp
    have "keys c' = keys c @ [k]"
      using assms(2) False unfolding Set_absent [OF assms(1) None] by auto
    then show ?thesis using None n by simp
  qed
next
  case (Some old)
  from assms(1) have "length (keys c) \<le> nat (maxEntries c)"
    by (rule cache_inv_length)
  moreover have "c' = c" using assms(2) Some by (simp add: Set_present)
  ultimately show ?thesis using Some by simp
qed

lemma drop_suffix_append:
  "drop (length (drop (length xs - n) xs @ ys) - n) (drop (length xs - n) xs @ ys)
     = drop (length (xs @ ys) - n) (xs @ ys)"
proof (cases "length xs \<le> n")
  case True
  then show ?thesis by simp
next
  case False
  then have a: "length (drop (length xs - n) xs @ ys) - n = length ys" by simp
  from False have b: "length (xs @ ys) - n = length ys + (length xs - n)" by simp
  have "drop (length ys + (length xs - n)) (xs @ ys) = drop (length ys) (drop (length xs - n) (xs @ ys))"
    by (simp only: drop_drop)
  also have "drop (length xs - n) (xs @ ys) = drop (length xs - n) xs @ ys"
    by simp
  finally show ?thesis unfolding a b by simp
qed

lemma run_inv:
  "cache_inv c \<Longrightarrow>
   \<exists>c'. run c ops = Inr c' \<and> cache_inv c' \<and> maxEntries c' = maxEntries c \<and>
        keys c' = drop (length (keys c @ inserted c ops) - nat (maxEntries c))
                    (keys c @ inserted c ops)"
proof (induction ops arbitrary: c)
  case Nil
  then have "length (keys c) \<le> nat (maxEntries c)" by (rule cache_inv_length)
  with Nil show ?case by simp
next
  case (Cons x ops)
  show ?case
  proof (cases x)
    case (OpGet k)
    with Cons.IH [OF Cons.prems] show ?thesis by simp
  next
    case (OpSet k v)
    from Set_inv [OF Cons.prems, of k v] obtain c1 where
      s: "Set c k v = Inr c1" and i: "cache_inv c1" and m: "maxEntries c1 = maxEntries c"
      by blast
    let ?new = "if entries c k = None then [k] else []"
    let ?n = "nat (maxEntries c)"
    from Cons.IH [OF i] obtain c' where
      r: "run c1 ops = Inr c'" and i': "cache_inv c'" and m': "maxEntries c' = maxEntries c1"
      and k': "keys c' = drop (length (keys c1 @ inserted c1 ops) - nat (maxEntries c1))
                    (keys c1 @ inserted c1 ops)"
      by blast
    have k1: "keys c1 = drop (length (keys c @ ?new) - ?n) (keys c @ ?new)"
      by (rule Set_keys [OF Cons.prems s])
    have "keys c' = drop (length ((keys c @ ?new) @ inserted c1 ops) - ?n)
        ((keys c @ ?new) @ inserted c1 ops)"
      unfolding k' k1 m by (rule drop_suffix_append)
    then show ?thesis using OpSet s r i' m m' by simp
  qed
qed

lemma Set_values:
  "Set c k1 v1 = Inr c1 \<Longrightarrow> entries c1 k = Some v \<Longrightarrow>
   entries c k = Some v \<or> (k = k1 \<and> v = v1)"
  by (auto simp: Set_def split: option.splits if_splits list.splits)

lemma run_values:
  "run c ops = Inr c' \<Longrightarrow> entries c' k = Some v \<Longrightarrow>
   entries c k = Some v \<or> OpSet k v \<in> set ops"
proof (induction ops arbitrary: c)
  case Nil
  then show ?case by simp
next
  case (Cons x ops)
  show ?case
  proof (cases x)
    case (OpGet k0)
    with Cons show ?thesis by auto
  next
    case (OpSet k1 v1)
    with Cons.prems obtain c1 where s: "Set c k1 v1 = Inr c1" and r: "run c1 ops = Inr c'"
      by (auto split: sum.splits)
    from Cons.IH [OF r Cons.prems(2)] Set_values [OF s] OpSet show ?thesis by auto
  qed
qed

lemma Set_dom: "Set c k v = Inr c' \<Longrightarrow> dom (entries c') \<subseteq> insert k (dom (entries c))"
  by (auto simp: Set_def split: option.splits if_splits list.splits)

lemma inserted_distinct:
  "cache_inv c \<Longrightarrow> distinct (map fst kvs) \<Longrightarrow> fst ` set kvs \<inter> dom (entries c) = {} \<Longrightarrow>
   inserted c (map (\<lambda>(k, v). OpSet k v) kvs) = map fst kvs"
proof (induction kvs arbitrary: c)
  case Nil
  then show ?case by simp
next
  case (Cons kv kvs)
  obtain k v where kv: "kv = (k, v)" by (cases kv)
  from Cons.prems(3) kv have none: "entries c k = None" by auto
  from Set_inv [OF Cons.prems(1), of k v] obtain c1 where
    s: "Set c k v = Inr c1" and i: "cache_inv c1"
    by blast
  have "fst ` set kvs \<inter> dom (entries c1) = {}"
    using Set_dom [OF s] Cons.prems(2,3) kv by auto
  with Cons.IH [OF i] Cons.prems(2) have "inserted c1 (map (\<lambda>(k, v). OpSet k v) kvs) = map fst kvs"
    by simp
  then show ?case using kv s none by simp
qed

lemma NewCache_inv:
  assumes "1 \<le> C" and "NewCache C = Inr c0"
  shows "c0 = \<lparr>maxEntries = C, entries = Map.empty, keys = []\<rparr> \<and> cache_inv c0"
  using assms by (auto simp: NewCache_def cache_inv_def split: if_splits)

lemma NewCache_out_of_range:
  "NewCache (- 1) = Inl MakesliceCapOutOfRange \<and> NewCache (2 ^ 62) = Inl MakesliceCapOutOfRange"
  by (simp add: NewCache_def maxAlloc_def)

lemma distinct_fst_value:
  "distinct (map fst kvs) \<Longrightarrow> (k, v) \<in> set kvs \<Longrightarrow> (k, v') \<in> set kvs \<Longrightarrow> v = v'"
  by (rule eq_key_imp_eq_value)

section \<open>Cache: the claims\<close>

text \<open>
  C7. \<open>Set\<close> with a key that is already stored is a no-op: the cache after the call is the
  cache before it, so the stored value of the key, the set of entries and the sequence
  of keys are unchanged and nothing is evicted.
\<close>

theorem Set_existing_key_noop:
  assumes "entries c k = Some old"
  shows "Set c k v = Inr c"
  using assms by (simp add: Set_def)

theorem Set_existing_key_noop_witness:
  "entries \<lparr>maxEntries = 1, entries = [''a'' \<mapsto> ''x''], keys = [''a'']\<rparr> ''a'' = Some ''x'' \<and>
   Set \<lparr>maxEntries = 1, entries = [''a'' \<mapsto> ''x''], keys = [''a'']\<rparr> ''a'' ''y''
     = Inr \<lparr>maxEntries = 1, entries = [''a'' \<mapsto> ''x''], keys = [''a'']\<rparr>"
  using Set_existing_key_noop
    [of "\<lparr>maxEntries = 1, entries = [''a'' \<mapsto> ''x''], keys = [''a'']\<rparr>" "''a''" "''x''" "''y''"]
  by simp

text \<open>
  C4 does not hold of the code: a cache of capacity 0 is created without a panic, and the
  first \<open>Set\<close> on it, whatever the key and the value, reads \<open>keys[0]\<close> of the empty slice
  and panics with an index out of range.
\<close>

theorem Set_capacity_zero_panics:
  "NewCache 0 = Inr \<lparr>maxEntries = 0, entries = Map.empty, keys = []\<rparr> \<and>
   Set \<lparr>maxEntries = 0, entries = Map.empty, keys = []\<rparr> k v = Inl IndexOutOfRange"
  by (simp add: NewCache_def maxAlloc_def Set_def)

text \<open>
  C6. For every capacity \<open>C\<close> of at least 1 with which \<open>NewCache\<close> makes a cache, and
  every sequence of \<open>Get\<close> and \<open>Set\<close> calls on that cache, no call panics and the
  resulting cache has at most \<open>C\<close> entries, its key sequence has no duplicates, holds
  exactly the keys of the mapping, and is the last (at most \<open>C\<close>) keys stored, in the
  order they were stored, oldest first. Moreover, storing \<open>C + 1\<close> distinct keys evicts
  exactly the first: \<open>Get\<close> does not find it, and finds every other key with its value.
\<close>

theorem cache_invariant_fifo:
  assumes "1 \<le> C" and "NewCache C = Inr c0"
  shows "(\<exists>c. run c0 ops = Inr c \<and>
            int (card (dom (entries c))) \<le> C \<and> distinct (keys c) \<and>
            set (keys c) = dom (entries c) \<and>
            keys c = drop (length (inserted c0 ops) - nat C) (inserted c0 ops)) \<and>
         (distinct (map fst kvs) \<and> length kvs = nat C + 1 \<longrightarrow>
            (\<exists>c. run c0 (map (\<lambda>(k, v). OpSet k v) kvs) = Inr c \<and>
               Get c (fst (hd kvs)) = ('''', False) \<and>
               (\<forall>(k, v) \<in> set (tl kvs). Get c k = (v, True))))"
proof -
  from NewCache_inv [OF assms] have c0: "c0 = \<lparr>maxEntries = C, entries = Map.empty, keys = []\<rparr>"
    and i0: "cache_inv c0"
    by blast+
  have general: "\<exists>c. run c0 ops = Inr c \<and> cache_inv c \<and> maxEntries c = C \<and>
      keys c = drop (length (inserted c0 ops) - nat C) (inserted c0 ops)" for ops
    using run_inv [OF i0, of ops] by (simp add: c0)
  have first: "\<exists>c. run c0 ops = Inr c \<and>
            int (card (dom (entries c))) \<le> C \<and> distinct (keys c) \<and>
            set (keys c) = dom (entries c) \<and>
            keys c = drop (length (inserted c0 ops) - nat C) (inserted c0 ops)"
  proof -
    from general [of ops] obtain c where c: "run c0 ops = Inr c" "cache_inv c" "maxEntries c = C"
      "keys c = drop (length (inserted c0 ops) - nat C) (inserted c0 ops)"
      by blast
    have "int (card (dom (entries c))) \<le> C"
      using c(2,3) by (simp add: card_dom_keys cache_inv_def)
    with c show ?thesis by (auto simp: cache_inv_def)
  qed
  have second: "\<exists>c. run c0 (map (\<lambda>(k, v). OpSet k v) kvs) = Inr c \<and>
               Get c (fst (hd kvs)) = ('''', False) \<and>
               (\<forall>(k, v) \<in> set (tl kvs). Get c k = (v, True))"
    if d: "distinct (map fst kvs)" and l: "length kvs = nat C + 1"
  proof -
    let ?ops = "map (\<lambda>(k, v). OpSet k v) kvs"
    from l obtain kv rest where kvs: "kvs = kv # rest" by (cases kvs) simp_all
    have ins: "inserted c0 ?ops = map fst kvs"
      using inserted_distinct [OF i0 d] by (simp add: c0)
    from general [of ?ops] obtain c where c: "run c0 ?ops = Inr c" "cache_inv c"
      "keys c = drop (length (inserted c0 ?ops) - nat C) (inserted c0 ?ops)"
      by blast
    have k: "keys c = map fst rest"
      unfolding c(3) ins using l kvs by simp
    have dom: "dom (entries c) = fst ` set rest"
      using c(2) k by (simp add: cache_inv_def)
    have "fst kv \<notin> fst ` set rest" using d kvs by simp
    then have g0: "Get c (fst (hd kvs)) = ('''', False)"
      using dom kvs by (auto simp: Get_def split: option.splits)
    have g: "Get c k' = (v', True)" if m: "(k', v') \<in> set rest" for k' v'
    proof -
      from m dom obtain w where w: "entries c k' = Some w" by force
      from run_values [OF c(1) w] have "(k', w) \<in> set kvs" by (auto simp: c0)
      moreover from m kvs have "(k', v') \<in> set kvs" by simp
      ultimately have "w = v'" using distinct_fst_value [OF d] by blast
      with w show ?thesis by (simp add: Get_def)
    qed
    from c(1) g0 g kvs show ?thesis by auto
  qed
  from first second show ?thesis by blast
qed

theorem cache_invariant_fifo_witness:
  "(1::int) \<le> 2 \<and>
   NewCache 2 = Inr \<lparr>maxEntries = 2, entries = Map.empty, keys = []\<rparr> \<and>
   (\<exists>c. run \<lparr>maxEntries = 2, entries = Map.empty, keys = []\<rparr>
          [OpSet ''a'' ''1'', OpGet ''a'', OpSet ''b'' ''2'', OpSet ''a'' ''9'', OpSet ''c'' ''3'']
        = Inr c \<and>
      int (card (dom (entries c))) \<le> 2 \<and> distinct (keys c) \<and> set (keys c) = dom (entries c) \<and>
      keys c = [''b'', ''c'']) \<and>
   distinct (map fst [(''a'', ''1''), (''b'', ''2''), (''c'', ''3'')]) \<and>
   length [(''a'', ''1''), (''b'', ''2''), (''c'', ''3'')] = nat 2 + 1 \<and>
   (\<exists>c. run \<lparr>maxEntries = 2, entries = Map.empty, keys = []\<rparr>
          [OpSet ''a'' ''1'', OpSet ''b'' ''2'', OpSet ''c'' ''3''] = Inr c \<and>
      Get c ''a'' = ('''', False) \<and> Get c ''b'' = (''2'', True) \<and> Get c ''c'' = (''3'', True))"
proof -
  have n: "NewCache 2 = Inr \<lparr>maxEntries = 2, entries = Map.empty, keys = []\<rparr>"
    by (simp add: NewCache_def maxAlloc_def)
  have p: "(1::int) \<le> 2"
    by simp
  from cache_invariant_fifo [OF p n,
      of "[OpSet ''a'' ''1'', OpGet ''a'', OpSet ''b'' ''2'', OpSet ''a'' ''9'', OpSet ''c'' ''3'']"
         "[(''a'', ''1''), (''b'', ''2''), (''c'', ''3'')]"] n
  show ?thesis
    by (simp add: Set_def)
qed

section \<open>Pipeline: auxiliary facts\<close>

lemma Split_no_sep: "sep \<notin> set s \<Longrightarrow> Split s sep = [s]"
  by (subst Split.simps) simp

lemma Split_sep:
  "sep \<in> set s \<Longrightarrow>
   Split s sep = takeWhile (\<lambda>c. c \<noteq> sep) s # Split (tl (dropWhile (\<lambda>c. c \<noteq> sep) s)) sep"
  by (subst Split.simps) simp

lemma Split_first: "\<exists>ps. Split s sep = takeWhile (\<lambda>c. c \<noteq> sep) s # ps"
proof (cases "sep \<in> set s")
  case True
  then show ?thesis by (simp add: Split_sep)
next
  case False
  then have "takeWhile (\<lambda>c. c \<noteq> sep) s = s"
    using takeWhile_eq_all_conv [of "\<lambda>c. c \<noteq> sep" s] by blast
  then have "Split s sep = takeWhile (\<lambda>c. c \<noteq> sep) s # []"
    using Split_no_sep [OF False] by (simp only:)
  then show ?thesis by blast
qed

lemma index_Split_0: "index (Split s sep) 0 = Inr (takeWhile (\<lambda>c. c \<noteq> sep) s)"
  using Split_first [of s sep] by (auto simp: index_def)

lemma index_Split_1:
  assumes "sep \<in> set s"
  shows "index (Split s sep) (Suc 0) = Inr (takeWhile (\<lambda>c. c \<noteq> sep) (tl (dropWhile (\<lambda>c. c \<noteq> sep) s)))"
  using Split_first [of "tl (dropWhile (\<lambda>c. c \<noteq> sep) s)" sep]
  by (auto simp: index_def Split_sep [OF assms])

lemma index_Split_1_none: "sep \<notin> set s \<Longrightarrow> index (Split s sep) (Suc 0) = Inl IndexOutOfRange"
  by (simp add: index_def Split_no_sep)

lemma binToHex_pair: "binToHex s = (fst (binToHex s), None)"
  by (simp add: binToHex_def Let_def)

lemma without_step:
  assumes "CHR '':'' \<in> set line"
  shows "convertWithoutCache_loop (line # rest) w =
         convertWithoutCache_loop rest (w @ composed line @ newline)"
proof -
  obtain hexStr where h: "binToHex (takeWhile (\<lambda>c. c \<noteq> CHR '':'') (payload_token line)) = (hexStr, None)"
    using binToHex_pair by blast
  then show ?thesis
    using assms
    by (simp add: index_Split_0 index_Split_1 [OF assms] composed_def size_token_def
        payload_token_def [symmetric])
qed

lemma without_all:
  "list_all (\<lambda>line. CHR '':'' \<in> set line) ls \<Longrightarrow>
   convertWithoutCache_loop ls w = Inr (Inr (w @ concat (map (\<lambda>line. composed line @ newline) ls)))"
proof (induction ls arbitrary: w)
  case Nil
  then show ?case by simp
next
  case (Cons line ls)
  then have c: "CHR '':'' \<in> set line" and r: "list_all (\<lambda>line. CHR '':'' \<in> set line) ls"
    by simp_all
  show ?case
    unfolding without_step [OF c] Cons.IH [OF r] by simp
qed

lemma with_hit:
  assumes "entries c line = Some v"
  shows "convertWithCache_loop (line # rest) c w = convertWithCache_loop rest c (w @ v @ newline)"
  using assms by (simp add: Get_def)

lemma with_miss:
  assumes "CHR '':'' \<in> set line" and "entries c line = None"
    and "Set c line (composed line) = Inr c'"
  shows "convertWithCache_loop (line # rest) c w =
         convertWithCache_loop rest c' (w @ composed line @ newline)"
proof -
  obtain hexStr where h: "binToHex (takeWhile (\<lambda>c. c \<noteq> CHR '':'') (payload_token line)) = (hexStr, None)"
    using binToHex_pair by blast
  have s: "Set c line (takeWhile (\<lambda>c. c \<noteq> CHR '':'') line @ CHR '':'' # hexStr) = Inr c'"
    using assms(3) h by (simp add: composed_def size_token_def)
  show ?thesis
    using assms(2) h s
    by (simp add: Get_def index_Split_0 index_Split_1 [OF assms(1)] composed_def size_token_def
        payload_token_def [symmetric])
qed

lemma Set_coherent:
  assumes "coherent c" and "Set c k (composed k) = Inr c'"
  shows "coherent c'"
  unfolding coherent_def
proof (intro allI impI)
  fix k' v
  assume "entries c' k' = Some v"
  from Set_values [OF assms(2) this] assms(1) show "v = composed k'"
    by (auto simp: coherent_def)
qed

lemma with_all:
  "cache_inv c \<Longrightarrow> coherent c \<Longrightarrow> list_all (\<lambda>line. CHR '':'' \<in> set line) ls \<Longrightarrow>
   \<exists>c'. convertWithCache_loop ls c w =
           Inr (Inr (c', w @ concat (map (\<lambda>line. composed line @ newline) ls)))
        \<and> cache_inv c' \<and> coherent c'"
proof (induction ls arbitrary: c w)
  case Nil
  then show ?case by simp
next
  case (Cons line ls)
  then have col: "CHR '':'' \<in> set line" and r: "list_all (\<lambda>line. CHR '':'' \<in> set line) ls"
    by simp_all
  show ?case
  proof (cases "entries c line")
    case None
    from Set_inv [OF Cons.prems(1), of line "composed line"] obtain c1 where
      s: "Set c line (composed line) = Inr c1" and i: "cache_inv c1"
      by blast
    from Cons.IH [OF i Set_coherent [OF Cons.prems(2) s] r, of "w @ composed line @ newline"]
    show ?thesis unfolding with_miss [OF col None s] by simp
  next
    case (Some v)
    with Cons.prems(2) have v: "v = composed line" by (simp add: coherent_def)
    from Cons.IH [OF Cons.prems(1,2) r, of "w @ composed line @ newline"]
    show ?thesis unfolding with_hit [OF Some] v by simp
  qed
qed

lemma coherent_empty: "coherent \<lparr>maxEntries = C, entries = Map.empty, keys = []\<rparr>"
  by (simp add: coherent_def)

section \<open>Pipeline: the claims\<close>



text \<open>
  C5, as the specification states it, fails: the line is split at every colon, not only
  at the first, and the payload is the second part alone. For the line \<open>4:01000001:1\<close>
  the substring after the first colon is \<open>01000001:1\<close>, but \<open>binToHex\<close> is given
  \<open>01000001\<close> and the output line is \<open>4:41\<close>.
\<close>

theorem split_first_colon_counterexample:
  "CHR '':'' \<in> set ''4:01000001:1'' \<and>
   payload_token ''4:01000001:1'' = ''01000001:1'' \<and>
   index (Split ''4:01000001:1'' CHR '':'') 1 = Inr ''01000001'' \<and>
   convertWithoutCache (Inr \<lparr>scan_lines = [''4:01000001:1''], scan_err = None\<rparr>) None
     = Inr (None, ''4:41'' @ newline) \<and>
   convertWithoutCache (Inr \<lparr>scan_lines = [''4:01000001:1''], scan_err = None\<rparr>) None
     \<noteq> Inr (None, size_token ''4:01000001:1'' @ '':''
                  @ fst (binToHex (payload_token ''4:01000001:1'')) @ newline)"
  by code_simp

text \<open>
  C5, amended. For every line that contains a colon, the line is split at every colon:
  the size token, everything before the first colon, is passed through to the output
  unchanged, and the payload handed to \<open>binToHex\<close> is the substring after the first
  colon up to the next colon, or up to the end of the line when there is no other
  colon; what follows a second colon is dropped. This holds in the non-cached pipeline
  and, from a fresh cache that \<open>NewCache\<close> makes with a capacity of at least 1, in the
  cached one.
\<close>

theorem split_every_colon:
  assumes "CHR '':'' \<in> set line" and "1 \<le> C" and "NewCache C = Inr c0"
  shows "index (Split line CHR '':'') 0 = Inr (size_token line) \<and>
         index (Split line CHR '':'') 1
           = Inr (takeWhile (\<lambda>c. c \<noteq> CHR '':'') (payload_token line)) \<and>
         convertWithoutCache (Inr \<lparr>scan_lines = [line], scan_err = None\<rparr>) None
           = Inr (None, size_token line @ '':''
               @ fst (binToHex (takeWhile (\<lambda>c. c \<noteq> CHR '':'') (payload_token line)))
               @ newline) \<and>
         (\<exists>c1.
            convertWithCache (Inr \<lparr>scan_lines = [line], scan_err = None\<rparr>) None c0
              = Inr (None, c1, size_token line @ '':''
                  @ fst (binToHex (takeWhile (\<lambda>c. c \<noteq> CHR '':'') (payload_token line)))
                  @ newline))"
proof -
  from NewCache_inv [OF assms(2,3)] have c0: "c0 = \<lparr>maxEntries = C, entries = Map.empty, keys = []\<rparr>"
    and i0: "cache_inv c0"
    by blast+
  have co: "coherent c0"
    unfolding c0 by (rule coherent_empty)
  have l: "list_all (\<lambda>line. CHR '':'' \<in> set line) [line]"
    using assms(1) by simp
  have p0: "index (Split line CHR '':'') 0 = Inr (size_token line)"
    by (simp add: index_Split_0 size_token_def)
  have p1: "index (Split line CHR '':'') 1
      = Inr (takeWhile (\<lambda>c. c \<noteq> CHR '':'') (payload_token line))"
    using index_Split_1 [OF assms(1)] by (simp add: payload_token_def)
  have u: "convertWithoutCache (Inr \<lparr>scan_lines = [line], scan_err = None\<rparr>) None
      = Inr (None, composed line @ newline)"
    using without_all [OF l, of "''''"] by (simp add: convertWithoutCache_def)
  from with_all [OF i0 co l, of "''''"] obtain c1 where
    "convertWithCache_loop [line] c0 '''' = Inr (Inr (c1, composed line @ newline))"
    by auto
  then have "convertWithCache (Inr \<lparr>scan_lines = [line], scan_err = None\<rparr>) None c0
      = Inr (None, c1, composed line @ newline)"
    by (simp add: convertWithCache_def)
  with p0 p1 u show ?thesis
    unfolding composed_def by auto
qed

theorem split_every_colon_witness:
  "CHR '':'' \<in> set ''4:01000001:1'' \<and> (1::int) \<le> 5000 \<and>
   NewCache 5000 = Inr \<lparr>maxEntries = 5000, entries = Map.empty, keys = []\<rparr> \<and>
   index (Split ''4:01000001:1'' CHR '':'') 0 = Inr ''4'' \<and>
   index (Split ''4:01000001:1'' CHR '':'') 1 = Inr ''01000001'' \<and>
   convertWithoutCache (Inr \<lparr>scan_lines = [''4:01000001:1''], scan_err = None\<rparr>) None
     = Inr (None, ''4:41'' @ newline) \<and>
   (\<exists>c1.
      convertWithCache (Inr \<lparr>scan_lines = [''4:01000001:1''], scan_err = None\<rparr>) None
        \<lparr>maxEntries = 5000, entries = Map.empty, keys = []\<rparr>
        = Inr (None, c1, ''4:41'' @ newline))"
proof -
  have h: "CHR '':'' \<in> set ''4:01000001:1''"
    by simp
  have q: "(1::int) \<le> 5000"
    by simp
  have n: "NewCache 5000 = Inr \<lparr>maxEntries = 5000, entries = Map.empty, keys = []\<rparr>"
    by (simp add: NewCache_def maxAlloc_def)
  have s: "size_token ''4:01000001:1'' = ''4''"
    by code_simp
  have p: "takeWhile (\<lambda>c. c \<noteq> CHR '':'') (payload_token ''4:01000001:1'') = ''01000001''"
    by code_simp
  have b: "binToHex ''01000001'' = (''41'', None)"
    by code_simp
  from split_every_colon [OF h q n] h n show ?thesis
    unfolding s p b by simp
qed

text \<open>
  C2 does not hold of the code: a line without a colon is split into one part, and
  reading \<open>parts[1]\<close> panics with an index out of range, in the non-cached pipeline and
  in the cached one (here with the default cache of 5000 entries). No error value is
  returned.
\<close>

theorem line_without_colon_panics:
  "CHR '':'' \<notin> set ''401000001'' \<and>
   convertWithoutCache (Inr \<lparr>scan_lines = [''401000001''], scan_err = None\<rparr>) None
     = Inl IndexOutOfRange \<and>
   convertWithCache (Inr \<lparr>scan_lines = [''401000001''], scan_err = None\<rparr>) None
     \<lparr>maxEntries = 5000, entries = Map.empty, keys = []\<rparr>
     = Inl IndexOutOfRange"
  by (simp add: convertWithoutCache_def convertWithCache_def Get_def Split_no_sep index_def)

text \<open>
  C3 does not hold of the code: \<open>binToHex\<close> does not validate its input. The string
  \<open>0102\<close> contains the character \<open>2\<close>, and \<open>binToHex\<close> returns the hex string \<open>06\<close> with a
  nil error; the input line \<open>4:0102\<close> goes through the pipeline and is written as
  \<open>4:06\<close>, with no error returned.
\<close>

theorem binToHex_accepts_invalid_character:
  "CHR ''2'' \<in> set ''0102'' \<and> CHR ''2'' \<noteq> CHR ''0'' \<and> CHR ''2'' \<noteq> CHR ''1'' \<and>
   binToHex ''0102'' = (''06'', None) \<and>
   convertWithoutCache (Inr \<lparr>scan_lines = [''4:0102''], scan_err = None\<rparr>) None
     = Inr (None, ''4:06'' @ newline)"
  by code_simp

end
